theory Spec2Isabelle
  imports Complex_Main "HOL-Library.Word" "HOL-Library.Signed_Division"
begin

unbundle bit_operations_syntax

section \<open>Data model\<close>

text \<open>
  Go's \<^verbatim>\<open>int32\<close> and \<^verbatim>\<open>uint64\<close> are machine words: \<open>+\<close> wraps, \<open>sint\<close> reads an
  \<^verbatim>\<open>int32\<close> as the signed value Go compares and indexes with.
\<close>

type_synonym int32 = "32 word"
type_synonym uint64 = "64 word"

text \<open>
  Modelled from the spec: the embedded \<^verbatim>\<open>prototype.Array32\<close> is declared outside
  \<^verbatim>\<open>array/index_by_bitmap.go\<close>. The fields the code touches are the running element
  counter (\<open>count\<close>, a 32-bit integer), the bitmap words (\<open>blocks\<close>, 64-bit words) and the
  block offsets (\<open>block_base\<close>, 32-bit integers); the dense payload is an external
  collaborator and stays in the record's extension.
\<close>

record Array32 =
  Cnt :: int32
  Bitmaps :: "uint64 list"
  Offsets :: "int32 list"

text \<open>The zero value of the struct: no words, no offsets, counter 0.\<close>

definition emptyArray32 :: Array32 where
  "emptyArray32 = \<lparr>Cnt = 0, Bitmaps = [], Offsets = []\<rparr>"

text \<open>The one error value of the package; Go's \<^verbatim>\<open>nil\<close> error is \<open>None\<close>.\<close>

datatype error = ErrIndexNotAscending

text \<open>The run-time panics the code can raise: \<^verbatim>\<open>make\<close> with a negative length, and a
  slice index out of range.\<close>

datatype panic = MakeSliceLenOutOfRange | IndexOutOfRange

definition bmWidth :: int32 where
  "bmWidth = 64"

definition bmMask :: int32 where
  "bmMask = 63"

section \<open>Go primitives\<close>

text \<open>\<^verbatim>\<open>a / b\<close> on \<^verbatim>\<open>int32\<close>: the quotient truncated towards zero.\<close>

definition div32 :: "int32 \<Rightarrow> int32 \<Rightarrow> int32" where
  "div32 a b = word_of_int (sint a sdiv sint b)"

text \<open>\<^verbatim>\<open>uint(x)\<close> of an \<^verbatim>\<open>int32\<close>: sign extension to 64 bits, read unsigned.\<close>

definition uint_of_int32 :: "int32 \<Rightarrow> nat" where
  "uint_of_int32 x = nat (sint x mod 2 ^ 64)"

text \<open>\<^verbatim>\<open>int32(len(s))\<close>: the length cut to 32 bits.\<close>

definition len32 :: "'a list \<Rightarrow> int32" where
  "len32 xs = of_nat (length xs)"

text \<open>\<^verbatim>\<open>s[i]\<close> with an \<^verbatim>\<open>int32\<close> index: a negative index or one past the end panics.\<close>

definition slice_get :: "'a list \<Rightarrow> int32 \<Rightarrow> panic + 'a" where
  "slice_get xs i =
     (if 0 \<le> sint i \<and> nat (sint i) < length xs then Inr (xs ! nat (sint i))
      else Inl IndexOutOfRange)"

text \<open>\<^verbatim>\<open>s[i] = v\<close>.\<close>

definition slice_set :: "'a list \<Rightarrow> int32 \<Rightarrow> 'a \<Rightarrow> panic + 'a list" where
  "slice_set xs i v =
     (if 0 \<le> sint i \<and> nat (sint i) < length xs then Inr (xs[nat (sint i) := v])
      else Inl IndexOutOfRange)"

text \<open>\<^verbatim>\<open>make([]T, n)\<close> with an \<^verbatim>\<open>int32\<close> length: \<open>n\<close> zero values, a panic when \<open>n\<close> is
  negative.\<close>

definition make_slice :: "'a::zero itself \<Rightarrow> int32 \<Rightarrow> panic + 'a list" where
  "make_slice T n =
     (if sint n < 0 then Inl MakeSliceLenOutOfRange else Inr (replicate (nat (sint n)) 0))"

text \<open>\<^verbatim>\<open>math/bits.OnesCount64\<close>: the number of one bits of a word.\<close>

definition OnesCount64 :: "uint64 \<Rightarrow> nat" where
  "OnesCount64 n = length (filter (bit n) [0..<64])"

text \<open>
  Modelled from the spec: \<^verbatim>\<open>bits.OnesCount64Before\<close> lives in the repository's \<^verbatim>\<open>bits\<close>
  package, outside \<^verbatim>\<open>array/index_by_bitmap.go\<close>. The rank primitive: given a 64-bit word
  and a bit position, mask off the bits at and above the position, then population-count
  the remainder.
\<close>

definition OnesCount64Before :: "uint64 \<Rightarrow> nat \<Rightarrow> nat" where
  "OnesCount64Before n iBit = OnesCount64 (n AND (push_bit iBit 1 - 1))"

section \<open>The index\<close>

text \<open>\<^verbatim>\<open>bmBit\<close>: the word index by an arithmetic shift, the bit index by a mask.\<close>

definition bmBit :: "int32 \<Rightarrow> int32 \<times> int32" where
  "bmBit idx = (let c = signed_drop_bit 6 idx; r = idx AND 63 in (c, r))"

text \<open>
  \<^verbatim>\<open>appendIndex\<close>: takes the address of \<^verbatim>\<open>a.Bitmaps[iBm]\<close> (which panics out of range),
  records the running count in \<^verbatim>\<open>a.Offsets[iBm]\<close> when the word is still zero, sets the
  bit and increments the counter.
\<close>

definition appendIndex :: "Array32 \<Rightarrow> int32 \<Rightarrow> panic + Array32" where
  "appendIndex a index =
     (case bmBit index of (iBm, iBit) \<Rightarrow>
        (case slice_get (Bitmaps a) iBm of
           Inl p \<Rightarrow> Inl p
         | Inr bmWord \<Rightarrow>
             (case (if bmWord = 0 then slice_set (Offsets a) iBm (Cnt a) else Inr (Offsets a)) of
                Inl p \<Rightarrow> Inl p
              | Inr offs \<Rightarrow>
                  Inr (a\<lparr>Bitmaps := (Bitmaps a)[nat (sint iBm) :=
                                      bmWord OR push_bit (uint_of_int32 iBit) 1],
                         Offsets := offs,
                         Cnt := Cnt a + 1\<rparr>))))"

text \<open>
  The loop of \<^verbatim>\<open>InitIndexBitmap\<close>: \<open>nxt\<close> is the smallest key still acceptable. A normal
  return carries the structure as the loop left it and the error (\<open>None\<close> for \<^verbatim>\<open>nil\<close>).
\<close>

fun InitIndexBitmap_loop :: "Array32 \<Rightarrow> int32 \<Rightarrow> int32 list \<Rightarrow> panic + (Array32 \<times> error option)" where
  "InitIndexBitmap_loop a nxt [] = Inr (a, None)"
| "InitIndexBitmap_loop a nxt (x # xs) =
     (if x <s nxt then Inr (a, Some ErrIndexNotAscending)
      else (case appendIndex a x of
              Inl p \<Rightarrow> Inl p
            | Inr a' \<Rightarrow> InitIndexBitmap_loop a' (x + 1) xs))"

definition InitIndexBitmap :: "Array32 \<Rightarrow> int32 list \<Rightarrow> panic + (Array32 \<times> error option)" where
  "InitIndexBitmap a index =
     (let capacity = (if length index > 0 then index ! (length index - 1) + 1 else 0);
          bmCnt = div32 (capacity + bmWidth - 1) bmWidth
      in (case make_slice TYPE(uint64) bmCnt of
            Inl p \<Rightarrow> Inl p
          | Inr bms \<Rightarrow>
              (case make_slice TYPE(int32) bmCnt of
                 Inl p \<Rightarrow> Inl p
               | Inr offs \<Rightarrow> InitIndexBitmap_loop (a\<lparr>Bitmaps := bms, Offsets := offs\<rparr>) 0 index)))"

text \<open>\<^verbatim>\<open>GetEltIndex\<close>: the dense position of \<open>idx\<close> and whether it is present.\<close>

definition GetEltIndex :: "Array32 \<Rightarrow> int32 \<Rightarrow> panic + (int32 \<times> bool)" where
  "GetEltIndex a idx =
     (case bmBit idx of (iBm, iBit) \<Rightarrow>
        if len32 (Bitmaps a) \<le>s iBm then Inr (0, False)
        else (case slice_get (Bitmaps a) iBm of
                Inl p \<Rightarrow> Inl p
              | Inr bmWord \<Rightarrow>
                  if drop_bit (uint_of_int32 iBit) bmWord AND 1 = 0 then Inr (0, False)
                  else (case slice_get (Offsets a) iBm of
                          Inl p \<Rightarrow> Inl p
                        | Inr base \<Rightarrow>
                            (let cnt1 = OnesCount64Before bmWord (uint_of_int32 iBit)
                             in Inr (base + of_nat cnt1, True)))))"

text \<open>\<^verbatim>\<open>Has\<close>: the word index by a truncating division; \<^verbatim>\<open>&&\<close> evaluates the slice
  access only when the bound check passed.\<close>

definition Has :: "Array32 \<Rightarrow> int32 \<Rightarrow> panic + bool" where
  "Has a idx =
     (let iBm = div32 idx bmWidth
      in if iBm <s len32 (Bitmaps a)
         then (case slice_get (Bitmaps a) iBm of
                 Inl p \<Rightarrow> Inl p
               | Inr w \<Rightarrow> Inr (drop_bit (unat (idx AND bmMask)) w AND 1 \<noteq> 0))
         else Inr False)"

text \<open>
  The number of words \<^verbatim>\<open>InitIndexBitmap\<close> asks \<^verbatim>\<open>make\<close> for, as the code computes it:
  \<^verbatim>\<open>bmCnt := (capacity + bmWidth - 1) / bmWidth\<close> with the capacity one past the last
  element (0 for no elements), all in wrapping \<^verbatim>\<open>int32\<close> arithmetic.
\<close>

definition bmCnt_of :: "int32 list \<Rightarrow> int32" where
  "bmCnt_of index =
     div32 ((if length index > 0 then index ! (length index - 1) + 1 else 0) + bmWidth - 1) bmWidth"

section \<open>The invariant of construction\<close>

text \<open>
  What \<^verbatim>\<open>appendIndex\<close> maintains while the keys \<open>ps\<close> (as signed values, in the order
  they were accepted) are inserted into a structure whose counter started at \<open>c0\<close>: the two
  slices have the same length, the counter has advanced by the number of keys, every key is
  covered by a word, bit \<open>j\<close> of word \<open>b\<close> is set exactly when key \<open>64 b + j\<close> was accepted, and
  the offset of a non-zero word is the counter value before the first key of its block.
\<close>

definition index_inv :: "nat \<Rightarrow> int list \<Rightarrow> Array32 \<Rightarrow> bool" where
  "index_inv c0 ps a \<longleftrightarrow>
     length (Offsets a) = length (Bitmaps a) \<and>
     Cnt a = of_nat (c0 + length ps) \<and>
     (\<forall>y\<in>set ps. 0 \<le> y \<and> y < 64 * int (length (Bitmaps a))) \<and>
     (\<forall>b<length (Bitmaps a). \<forall>j<64. bit (Bitmaps a ! b) j = (64 * int b + int j \<in> set ps)) \<and>
     (\<forall>b<length (Bitmaps a). Bitmaps a ! b \<noteq> 0 \<longrightarrow>
        Offsets a ! b = of_nat (c0 + length (filter (\<lambda>y. y < 64 * int b) ps)))"

section \<open>Word arithmetic of the block/bit split\<close>

lemma sint_range32: "- 2147483648 \<le> sint (k::int32)" "sint (k::int32) < 2147483648"
  using sint_ge [of k] sint_lt [of k] by simp_all

lemma sint_word_of_int32:
  "- 2147483648 \<le> z \<Longrightarrow> z < 2147483648 \<Longrightarrow> sint (word_of_int z :: int32) = z"
  by (simp add: signed_of_int signed_take_bit_int_eq_self)

lemma and63: "(k::int32) AND 63 = take_bit 6 k"
proof -
  have "(63::int32) = mask 6" by (simp add: mask_eq_exp_minus_1)
  then show ?thesis by (simp add: take_bit_eq_mask)
qed

lemma sint_mod64: "sint (k::int32) mod 64 = uint k mod 64"
proof -
  have "take_bit 6 (sint k) = take_bit 6 (uint k)"
    by (simp add: sint_uint take_bit_signed_take_bit)
  then show ?thesis by (simp add: take_bit_eq_mod)
qed

lemma uint_and63: "uint ((k::int32) AND 63) = sint k mod 64"
proof -
  have "uint (take_bit 6 k) = take_bit 6 (uint k)" by (rule unsigned_take_bit_eq)
  also have "\<dots> = uint k mod 64" by (simp add: take_bit_eq_mod)
  finally show ?thesis by (simp only: and63 sint_mod64)
qed

lemma sint_and63: "sint ((k::int32) AND 63) = sint k mod 64"
proof -
  have b: "uint (k AND 63) < 64" by (simp add: uint_and63)
  have "signed_take_bit 31 (uint (k AND 63)) = uint (k AND 63)"
  proof (rule signed_take_bit_int_eq_self)
    have "(0::int) \<le> uint (k AND 63)" by simp
    then show "- (2 ^ 31) \<le> uint (k AND 63)" by (rule order_trans [rotated]) simp
    show "uint (k AND 63) < 2 ^ 31" using b by simp
  qed
  then have "sint (k AND 63) = uint (k AND 63)"
    by (simp add: sint_uint)
  then show ?thesis by (simp only: uint_and63)
qed

lemma unat_and63: "unat ((k::int32) AND 63) = nat (sint k mod 64)"
  using uint_and63 [of k] by (simp add: unat_eq_nat_uint)

lemma uint_of_int32_and63: "uint_of_int32 ((k::int32) AND 63) = nat (sint k mod 64)"
proof -
  have "0 \<le> sint k mod 64" "sint k mod 64 < 64" by simp_all
  then have "(sint k mod 64) mod 2 ^ 64 = sint k mod 64" by simp
  then show ?thesis by (simp only: uint_of_int32_def sint_and63)
qed

lemma sint_div32_64: "0 \<le> sint k \<Longrightarrow> sint (div32 k bmWidth) = sint k div 64"
proof -
  assume nn: "0 \<le> sint k"
  have lt: "sint k < 2147483648" by (rule sint_range32)
  have "sint k sdiv 64 = sint k div 64"
    using nn by (simp add: signed_divide_int_def sgn_if)
  moreover have "0 \<le> sint k div 64" "sint k div 64 < 2147483648" using nn lt by simp_all
  ultimately show ?thesis
    by (simp add: div32_def bmWidth_def sint_word_of_int32)
qed

lemma sint_len32: "length xs < 2147483648 \<Longrightarrow> sint (len32 xs) = int (length xs)"
proof -
  assume "length xs < 2147483648"
  then have "sint (word_of_int (int (length xs)) :: int32) = int (length xs)"
    by (intro sint_word_of_int32) simp_all
  then show ?thesis by (simp add: len32_def)
qed

lemma bit_test: "(drop_bit j (w::uint64) AND 1 = 0) = (\<not> bit w j)"
  by (simp add: and_one_eq bit_iff_odd_drop_bit even_iff_mod_2_eq_zero)

lemma bit_set_bit: "bit ((w::uint64) OR push_bit j 1) i = (bit w i \<or> (i = j \<and> j < 64))"
  by (auto simp add: bit_simps)

lemma bit_below: "bit ((w::uint64) AND (push_bit j 1 - 1)) i = (bit w i \<and> i < j)"
proof -
  have "(push_bit j 1 - 1 :: uint64) = mask j" by (simp add: mask_eq_exp_minus_1)
  then show ?thesis by (auto simp add: bit_simps dest: bit_imp_le_length)
qed

lemma OnesCount64_card: "OnesCount64 w = card {i. bit w i}"
proof -
  have "{i. bit w i} = {i. bit w i} \<inter> set [0..<64]"
    using bit_imp_le_length [of w] by auto
  then show ?thesis
    by (simp only: OnesCount64_def distinct_length_filter distinct_upt)
qed

lemma OnesCount64Before_card: "OnesCount64Before w j = card {i. i < j \<and> bit w i}"
  by (simp only: OnesCount64Before_def OnesCount64_card bit_below conj_commute)

lemma sint_bmBit_fst: "sint (fst (bmBit k)) = sint k div 64"
  by (simp add: bmBit_def sint_signed_drop_bit_eq drop_bit_eq_div)

lemma snd_bmBit: "snd (bmBit k) = k AND 63"
  by (simp add: bmBit_def)

section \<open>One insertion\<close>

lemma sint_succ: "sint (x::int32) < 2147483647 \<Longrightarrow> sint (x + 1) = sint x + 1"
proof -
  assume lt: "sint x < 2147483647"
  have ge: "- 2147483648 \<le> sint x" by (rule sint_range32)
  have "signed_take_bit 31 (sint x + 1) = sint x + 1"
    using lt ge by (intro signed_take_bit_int_eq_self) simp_all
  then show ?thesis by (simp add: sint_word_ariths)
qed

lemma appendIndex_ok:
  assumes "0 \<le> sint x" and "nat (sint x div 64) < length (Bitmaps a)"
    and "length (Offsets a) = length (Bitmaps a)"
  shows "appendIndex a x =
     Inr (a\<lparr>Bitmaps := (Bitmaps a)[nat (sint x div 64) :=
                Bitmaps a ! nat (sint x div 64) OR push_bit (nat (sint x mod 64)) 1],
            Offsets := (if Bitmaps a ! nat (sint x div 64) = 0
                        then (Offsets a)[nat (sint x div 64) := Cnt a] else Offsets a),
            Cnt := Cnt a + 1\<rparr>)"
proof -
  obtain iBm iBit where bm: "bmBit x = (iBm, iBit)" by (cases "bmBit x")
  have i1: "sint iBm = sint x div 64" using sint_bmBit_fst [of x] bm by simp
  have i2: "uint_of_int32 iBit = nat (sint x mod 64)"
    using snd_bmBit [of x] bm by (simp add: uint_of_int32_and63)
  have nn: "0 \<le> sint x div 64" using assms(1) by simp
  show ?thesis
    using assms(2,3) nn
    by (simp add: appendIndex_def bm slice_get_def slice_set_def i1 i2)
qed

lemma appendIndex_Inr:
  assumes "appendIndex a x = Inr a'"
  shows "0 \<le> sint x \<and> nat (sint x div 64) < length (Bitmaps a)
     \<and> length (Bitmaps a') = length (Bitmaps a) \<and> length (Offsets a') = length (Offsets a)
     \<and> Cnt a' = Cnt a + 1"
proof -
  obtain iBm iBit where bm: "bmBit x = (iBm, iBit)" by (cases "bmBit x")
  have i1: "sint iBm = sint x div 64" using sint_bmBit_fst [of x] bm by simp
  have "(0 \<le> sint x div 64) = (0 \<le> sint x)" by (simp add: pos_imp_zdiv_nonneg_iff)
  then show ?thesis
    using assms
    by (auto simp add: appendIndex_def bm slice_get_def slice_set_def i1
        split: if_splits sum.splits)
qed

lemma appendIndex_Inl: "appendIndex a x = Inl p \<Longrightarrow> p = IndexOutOfRange"
  by (cases "bmBit x")
    (auto simp add: appendIndex_def slice_get_def slice_set_def split: if_splits sum.splits)

lemma word_nonzero_bit: "(w::uint64) \<noteq> 0 \<Longrightarrow> \<exists>j<64. bit w j"
proof -
  assume "w \<noteq> 0"
  then obtain j where "bit w j" by (auto simp add: bit_eq_iff)
  then show ?thesis using bit_imp_le_length [of w j] by auto
qed

lemma split_key:
  assumes "0 \<le> (k::int)"
  shows "k = 64 * int (nat (k div 64)) + int (nat (k mod 64))" and "nat (k mod 64) < 64"
  using assms by (simp_all add: pos_imp_zdiv_nonneg_iff)

lemma block_unique:
  assumes "64 * int b + int j = 64 * int b' + int j'" and "j < 64" and "j' < 64"
  shows "b = b'" and "j = j'"
proof -
  show "b = b'"
  proof (rule ccontr)
    assume "b \<noteq> b'"
    then consider "b < b'" | "b' < b" by linarith
    then show False using assms by cases linarith+
  qed
  then have "int j = int j'" using assms(1) by simp
  then show "j = j'" by simp
qed

lemma appendIndex_step:
  assumes inv: "index_inv c0 ps a"
    and lt: "\<forall>y\<in>set ps. y < sint x"
    and nn: "0 \<le> sint x"
    and inb: "nat (sint x div 64) < length (Bitmaps a)"
  shows "\<exists>a'. appendIndex a x = Inr a' \<and> index_inv c0 (ps @ [sint x]) a'
           \<and> length (Bitmaps a') = length (Bitmaps a)"
proof -
  define b where "b = nat (sint x div 64)"
  define j where "j = nat (sint x mod 64)"
  define w where "w = Bitmaps a ! b"
  define a' where "a' = a\<lparr>Bitmaps := (Bitmaps a)[b := w OR push_bit j 1],
      Offsets := (if w = 0 then (Offsets a)[b := Cnt a] else Offsets a), Cnt := Cnt a + 1\<rparr>"
  have len: "length (Offsets a) = length (Bitmaps a)"
    and cnt: "Cnt a = of_nat (c0 + length ps)"
    and rng: "\<forall>y\<in>set ps. 0 \<le> y \<and> y < 64 * int (length (Bitmaps a))"
    and bits: "\<And>b' j'. b' < length (Bitmaps a) \<Longrightarrow> j' < 64 \<Longrightarrow>
        bit (Bitmaps a ! b') j' = (64 * int b' + int j' \<in> set ps)"
    and offs: "\<And>b'. b' < length (Bitmaps a) \<Longrightarrow> Bitmaps a ! b' \<noteq> 0 \<Longrightarrow>
        Offsets a ! b' = of_nat (c0 + length (filter (\<lambda>y. y < 64 * int b') ps))"
    using inv by (simp_all add: index_inv_def)
  have run: "appendIndex a x = Inr a'"
    using appendIndex_ok [OF nn inb len] by (simp add: a'_def b_def j_def w_def)
  have key: "sint x = 64 * int b + int j" and j64: "j < 64"
    using split_key [OF nn] by (simp_all add: b_def j_def)
  have bl: "b < length (Bitmaps a)" using inb by (simp add: b_def)
  have Bm: "Bitmaps a' = (Bitmaps a)[b := w OR push_bit j 1]"
    and Of: "Offsets a' = (if w = 0 then (Offsets a)[b := Cnt a] else Offsets a)"
    and Cn: "Cnt a' = Cnt a + 1"
    by (simp_all add: a'_def)
  have L: "length (Bitmaps a') = length (Bitmaps a)" by (simp add: Bm)
  have c1: "length (Offsets a') = length (Bitmaps a')" using len by (simp add: Bm Of)
  have c2: "Cnt a' = of_nat (c0 + length (ps @ [sint x]))" by (simp add: Cn cnt)
  have c3: "\<forall>y\<in>set (ps @ [sint x]). 0 \<le> y \<and> y < 64 * int (length (Bitmaps a'))"
  proof -
    have "sint x < 64 * int (length (Bitmaps a))" using key j64 bl by simp
    then show ?thesis using rng nn by (simp add: L)
  qed
  have c4: "bit (Bitmaps a' ! b') j' = (64 * int b' + int j' \<in> set (ps @ [sint x]))"
    if b': "b' < length (Bitmaps a')" and j': "j' < 64" for b' j'
  proof (cases "b' = b")
    case True
    have e: "(64 * int b + int j' = sint x) = (j' = j)" using key by simp
    have "Bitmaps a' ! b = w OR push_bit j 1" using bl by (simp add: Bm)
    then have "bit (Bitmaps a' ! b) j' = (bit w j' \<or> j' = j)"
      using j64 by (simp only: bit_set_bit) simp
    then show ?thesis
      using bits [OF bl j'] e by (auto simp add: True w_def)
  next
    case False
    have "64 * int b' + int j' \<noteq> sint x"
      using block_unique(1) [of b' j' b j] j' j64 False key by auto
    then show ?thesis
      using b' j' bits [of b' j'] False by (simp add: Bm)
  qed
  have c5: "Offsets a' ! b' = of_nat (c0 + length (filter (\<lambda>y. y < 64 * int b') (ps @ [sint x])))"
    if b': "b' < length (Bitmaps a')" and nz: "Bitmaps a' ! b' \<noteq> 0" for b'
  proof (cases "b' = b")
    case True
    have nx: "\<not> sint x < 64 * int b" using key by simp
    show ?thesis
    proof (cases "w = 0")
      case w0: True
      have "\<forall>y\<in>set ps. y < 64 * int b"
      proof
        fix y assume y: "y \<in> set ps"
        show "y < 64 * int b"
        proof (rule ccontr)
          assume "\<not> y < 64 * int b"
          then have ge: "64 * int b \<le> y" by simp
          have "y < sint x" using lt y by simp
          then have "y - 64 * int b < 64" using key j64 by simp
          then have "nat (y - 64 * int b) < 64" using ge by simp
          moreover have "64 * int b + int (nat (y - 64 * int b)) = y" using ge by simp
          ultimately have "bit (Bitmaps a ! b) (nat (y - 64 * int b))"
            using bits [OF bl, of "nat (y - 64 * int b)"] y by simp
          then show False using w0 by (simp add: w_def)
        qed
      qed
      then have "filter (\<lambda>y. y < 64 * int b) ps = ps" by (simp add: filter_id_conv)
      then show ?thesis using bl len nx by (simp add: Of w0 True cnt)
    next
      case wn: False
      then show ?thesis using offs [OF bl] nx by (simp add: Of True w_def)
    qed
  next
    case False
    have b'l: "b' < length (Bitmaps a)" using b' by (simp add: L)
    have old: "Bitmaps a ! b' \<noteq> 0" using nz False by (simp add: Bm)
    then obtain j' where j': "j' < 64" and "bit (Bitmaps a ! b') j'"
      using word_nonzero_bit by blast
    then have "64 * int b' + int j' \<in> set ps" using bits [OF b'l j'] by simp
    then have "64 * int b' + int j' < sint x" using lt by simp
    then have "\<not> sint x < 64 * int b'" by simp
    moreover have "Offsets a' ! b' = Offsets a ! b'" using False by (simp add: Of)
    ultimately show ?thesis using offs [OF b'l old] by simp
  qed
  have "index_inv c0 (ps @ [sint x]) a'"
    unfolding index_inv_def by (intro conjI allI impI c1 c2 c3 c4 c5)
  then show ?thesis using run L by blast
qed

section \<open>The construction loop\<close>


lemma loop_Cnt:
  "InitIndexBitmap_loop a nxt xs = Inr (a', None) \<Longrightarrow> Cnt a' = Cnt a + of_nat (length xs)"
proof (induction xs arbitrary: a nxt)
  case Nil
  then show ?case by simp
next
  case (Cons x xs)
  show ?case
  proof (cases "x <s nxt")
    case True
    then show ?thesis using Cons.prems by simp
  next
    case False
    then obtain a1 where a1: "appendIndex a x = Inr a1"
      and rec: "InitIndexBitmap_loop a1 (x + 1) xs = Inr (a', None)"
      using Cons.prems by (auto split: sum.splits)
    show ?thesis using Cons.IH [OF rec] appendIndex_Inr [OF a1] by simp
  qed
qed

lemma loop_builds:
  assumes "index_inv c0 ps a"
    and "sorted_wrt (<) (ps @ map sint xs)"
    and "\<forall>x\<in>set xs. 0 \<le> sint x \<and> nat (sint x div 64) < length (Bitmaps a)"
    and "\<forall>x\<in>set xs. sint nxt \<le> sint x"
  shows "\<exists>a'. InitIndexBitmap_loop a nxt xs = Inr (a', None)
           \<and> index_inv c0 (ps @ map sint xs) a' \<and> length (Bitmaps a') = length (Bitmaps a)"
  using assms
proof (induction xs arbitrary: a ps nxt)
  case Nil
  then show ?case by simp
next
  case (Cons x xs)
  have ge: "\<not> x <s nxt" using Cons.prems(4) by (simp add: word_sless_alt)
  have lt: "\<forall>y\<in>set ps. y < sint x"
    using Cons.prems(2) by (simp add: sorted_wrt_append)
  have nn: "0 \<le> sint x" and inb: "nat (sint x div 64) < length (Bitmaps a)"
    using Cons.prems(3) by simp_all
  obtain a1 where a1: "appendIndex a x = Inr a1"
    and inv1: "index_inv c0 (ps @ [sint x]) a1"
    and len1: "length (Bitmaps a1) = length (Bitmaps a)"
    using appendIndex_step [OF Cons.prems(1) lt nn inb] by blast
  have srt1: "sorted_wrt (<) ((ps @ [sint x]) @ map sint xs)"
    using Cons.prems(2) by simp
  have rng1: "\<forall>y\<in>set xs. 0 \<le> sint y \<and> nat (sint y div 64) < length (Bitmaps a1)"
    using Cons.prems(3) by (simp add: len1)
  have nx1: "\<forall>y\<in>set xs. sint (x + 1) \<le> sint y"
  proof
    fix y assume y: "y \<in> set xs"
    have "sint x < sint y" using Cons.prems(2) y by (simp add: sorted_wrt_append)
    moreover have "sint y < 2147483648" by (rule sint_range32)
    ultimately show "sint (x + 1) \<le> sint y" by (simp add: sint_succ)
  qed
  obtain a' where "InitIndexBitmap_loop a1 (x + 1) xs = Inr (a', None)"
    and "index_inv c0 ((ps @ [sint x]) @ map sint xs) a'"
    and "length (Bitmaps a') = length (Bitmaps a1)"
    using Cons.IH [OF inv1 srt1 rng1 nx1] by blast
  then show ?case using ge a1 len1 by simp
qed

lemma block_bound:
  assumes "nat (k div 64) < n" and "n < 33554432"
  shows "k < 2147483584"
proof -
  have "k div 64 < 33554431" using assms by linarith
  then show ?thesis by linarith
qed

lemma loop_success:
  assumes "InitIndexBitmap_loop a nxt xs = Inr (a', None)"
    and "0 \<le> sint nxt"
    and "length (Bitmaps a) < 33554432"
  shows "sorted_wrt (<) (map sint xs)
     \<and> (\<forall>x\<in>set xs. sint nxt \<le> sint x \<and> nat (sint x div 64) < length (Bitmaps a))"
  using assms
proof (induction xs arbitrary: a nxt)
  case Nil
  then show ?case by simp
next
  case (Cons x xs)
  have ge: "\<not> x <s nxt" using Cons.prems(1) by (auto split: if_splits)
  then obtain a1 where a1: "appendIndex a x = Inr a1"
    and rec: "InitIndexBitmap_loop a1 (x + 1) xs = Inr (a', None)"
    using Cons.prems(1) by (auto split: sum.splits)
  have le: "sint nxt \<le> sint x" using ge by (simp add: word_sless_alt)
  have inb: "nat (sint x div 64) < length (Bitmaps a)"
    and len1: "length (Bitmaps a1) = length (Bitmaps a)"
    using appendIndex_Inr [OF a1] by simp_all
  have "sint x < 2147483584" using block_bound [OF inb Cons.prems(3)] .
  then have suc: "sint (x + 1) = sint x + 1" by (simp add: sint_succ)
  have nn1: "0 \<le> sint (x + 1)" using le Cons.prems(2) by (simp add: suc)
  have l1: "length (Bitmaps a1) < 33554432" using Cons.prems(3) by (simp add: len1)
  have ih: "sorted_wrt (<) (map sint xs)
     \<and> (\<forall>y\<in>set xs. sint (x + 1) \<le> sint y \<and> nat (sint y div 64) < length (Bitmaps a1))"
    using Cons.IH [OF rec nn1 l1] .
  then have "\<forall>y\<in>set xs. sint x < sint y" by (auto simp add: suc)
  moreover have "\<forall>y\<in>set xs. sint nxt \<le> sint y" using ih le by (auto simp add: suc)
  ultimately show ?case using ih le inb by (auto simp add: len1)
qed

lemma loop_in_bounds:
  assumes "length (Offsets a) = length (Bitmaps a)"
    and "length (Bitmaps a) < 33554432"
    and "0 \<le> sint nxt"
    and "\<forall>x\<in>set xs. sint x < 64 * int (length (Bitmaps a))"
  shows "\<exists>r. InitIndexBitmap_loop a nxt xs = Inr r"
  using assms
proof (induction xs arbitrary: a nxt)
  case Nil
  then show ?case by simp
next
  case (Cons x xs)
  show ?case
  proof (cases "x <s nxt")
    case True
    then show ?thesis by simp
  next
    case False
    then have le: "sint nxt \<le> sint x" by (simp add: word_sless_alt)
    then have nn: "0 \<le> sint x" using Cons.prems(3) by simp
    have xb: "sint x < 64 * int (length (Bitmaps a))" using Cons.prems(4) by simp
    then have inb: "nat (sint x div 64) < length (Bitmaps a)" using nn by linarith
    obtain a1 where a1: "appendIndex a x = Inr a1"
      using appendIndex_ok [OF nn inb Cons.prems(1)] by blast
    have len1: "length (Bitmaps a1) = length (Bitmaps a)"
      and off1: "length (Offsets a1) = length (Offsets a)"
      using appendIndex_Inr [OF a1] by simp_all
    have "sint x < 2147483584" using block_bound [OF inb Cons.prems(2)] .
    then have suc: "sint (x + 1) = sint x + 1" by (simp add: sint_succ)
    have "\<exists>r. InitIndexBitmap_loop a1 (x + 1) xs = Inr r"
      using Cons.prems nn by (intro Cons.IH) (simp_all add: len1 off1 suc)
    then show ?thesis using False a1 by simp
  qed
qed

section \<open>The number of words allocated\<close>

lemma div64_decomp:
  obtains q m where "(v::int) = 64 * q + m" and "0 \<le> m" and "m < 64" and "v div 64 = q"
proof
  show "v = 64 * (v div 64) + v mod 64" by simp
  show "0 \<le> v mod 64" by simp
  show "v mod 64 < 64" by simp
  show "v div 64 = v div 64" by simp
qed

lemma sdiv64: "(v::int) sdiv 64 = (if 0 \<le> v then v div 64 else - ((- v) div 64))"
  by (simp add: signed_divide_int_def sgn_if)

lemma sdiv64_range:
  assumes "- 2147483648 \<le> (v::int)" and "v < 2147483648"
  shows "- 2147483648 \<le> v sdiv 64" and "v sdiv 64 < 2147483648"
proof -
  have "- 2147483648 \<le> v sdiv 64 \<and> v sdiv 64 < 2147483648"
  proof (cases "0 \<le> v")
    case True
    obtain q m where "v = 64 * q + m" "0 \<le> m" "m < 64" "v div 64 = q" by (rule div64_decomp)
    then show ?thesis using True assms by (simp add: sdiv64; linarith)
  next
    case False
    obtain q m where "- v = 64 * q + m" "0 \<le> m" "m < 64" "(- v) div 64 = q"
      by (rule div64_decomp)
    then show ?thesis using False assms by (simp add: sdiv64; linarith)
  qed
  then show "- 2147483648 \<le> v sdiv 64" and "v sdiv 64 < 2147483648" by simp_all
qed

lemma sint_div32_any: "sint (div32 v bmWidth) = sint v sdiv 64"
proof -
  have r: "- 2147483648 \<le> sint v" "sint v < 2147483648" by (rule sint_range32)+
  show ?thesis
    using sdiv64_range [OF r] by (simp add: div32_def bmWidth_def sint_word_of_int32)
qed

lemma sint_add64:
  "sint ((l::int32) + 64) = (if sint l < 2147483584 then sint l + 64 else sint l + 64 - 4294967296)"
proof -
  have r: "- 2147483648 \<le> sint l" "sint l < 2147483648" by (rule sint_range32)+
  show ?thesis
  proof (cases "sint l < 2147483584")
    case True
    then have "sint (word_of_int (sint l + 64) :: int32) = sint l + 64"
      using r by (intro sint_word_of_int32) simp_all
    then show ?thesis using True by simp
  next
    case False
    then have "sint (word_of_int (sint l + 64 - 4294967296) :: int32) = sint l + 64 - 4294967296"
      using r by (intro sint_word_of_int32) simp_all
    moreover have "l - 4294967232 = l + 64" by simp
    ultimately show ?thesis using False by simp
  qed
qed

lemma InitIndexBitmap_alt:
  "InitIndexBitmap a ks =
     (if sint (bmCnt_of ks) < 0 then Inl MakeSliceLenOutOfRange
      else InitIndexBitmap_loop
             (a\<lparr>Bitmaps := replicate (nat (sint (bmCnt_of ks))) 0,
                Offsets := replicate (nat (sint (bmCnt_of ks))) 0\<rparr>) 0 ks)"
  by (simp add: InitIndexBitmap_def bmCnt_of_def make_slice_def Let_def)

lemma bmCnt_of_Nil: "bmCnt_of [] = 0"
  by (simp add: bmCnt_of_def bmWidth_def div32_def sdiv64)

lemma bmCnt_of_last:
  assumes "ks \<noteq> []"
  shows "sint (bmCnt_of ks) = sint (last ks + 64) sdiv 64"
proof -
  have "last ks + 1 + bmWidth - 1 = last ks + 64" by (simp add: bmWidth_def)
  then show ?thesis using assms by (simp add: bmCnt_of_def last_conv_nth sint_div32_any)
qed

lemma bmCnt_of_overflow:
  assumes "ks \<noteq> []" and "2147483584 \<le> sint (last ks)"
  shows "sint (bmCnt_of ks) < 0"
proof -
  define v where "v = sint (last ks) + 64 - 4294967296"
  have r: "sint (last ks) < 2147483648" by (rule sint_range32)
  have v: "sint (last ks + 64) = v" using assms(2) by (simp add: sint_add64 v_def)
  have neg: "v < 0" using r by (simp add: v_def)
  obtain q m where "- v = 64 * q + m" "0 \<le> m" "m < 64" "(- v) div 64 = q"
    by (rule div64_decomp)
  moreover have "2147483585 \<le> - v" using r by (simp add: v_def)
  ultimately have "0 < (- v) div 64" by linarith
  then show ?thesis using neg by (simp add: bmCnt_of_last [OF assms(1)] v sdiv64)
qed

lemma bmCnt_of_nonneg:
  assumes "ks \<noteq> []" and "0 \<le> sint (last ks)" and "sint (last ks) < 2147483584"
  shows "sint (bmCnt_of ks) = sint (last ks) div 64 + 1"
proof -
  have "sint (last ks + 64) = sint (last ks) + 64" using assms(3) by (simp add: sint_add64)
  then show ?thesis using assms(2) by (simp add: bmCnt_of_last [OF assms(1)] sdiv64)
qed

lemma bmCnt_of_negative:
  assumes "ks \<noteq> []" and "sint (last ks) < 0" and "0 \<le> sint (bmCnt_of ks)"
  shows "sint (bmCnt_of ks) = 0"
proof -
  define v where "v = sint (last ks) + 64"
  have v: "sint (last ks + 64) = v" using assms(2) by (simp add: sint_add64 v_def)
  have e: "sint (bmCnt_of ks) = v sdiv 64" by (simp add: bmCnt_of_last [OF assms(1)] v)
  show ?thesis
  proof (cases "0 \<le> v")
    case True
    moreover have "v < 64" using assms(2) by (simp add: v_def)
    ultimately show ?thesis by (simp add: e sdiv64)
  next
    case False
    obtain q m where d: "- v = 64 * q + m" "0 \<le> m" "m < 64" "(- v) div 64 = q"
      by (rule div64_decomp)
    have "0 \<le> - q" using assms(3) False d(4) by (simp add: e sdiv64)
    moreover have "0 \<le> q" using d False by linarith
    ultimately have "q = 0" by simp
    then show ?thesis using False d(4) by (simp add: e sdiv64)
  qed
qed

section \<open>Construction as a whole\<close>

lemma bmCnt_of_lt: "sint (bmCnt_of ks) < 33554432"
proof (cases "ks = []")
  case True
  then show ?thesis by (simp add: bmCnt_of_Nil)
next
  case ne: False
  consider "2147483584 \<le> sint (last ks)"
    | "0 \<le> sint (last ks)" "sint (last ks) < 2147483584"
    | "sint (last ks) < 0" by linarith
  then show ?thesis
  proof cases
    case 1
    then show ?thesis using bmCnt_of_overflow [OF ne] by simp
  next
    case 2
    obtain q m where "sint (last ks) = 64 * q + m" "0 \<le> m" "m < 64" "sint (last ks) div 64 = q"
      by (rule div64_decomp)
    then have "sint (last ks) div 64 + 1 < 33554432" using 2 by linarith
    then show ?thesis using bmCnt_of_nonneg [OF ne 2] by simp
  next
    case 3
    then show ?thesis using bmCnt_of_negative [OF ne 3] by (cases "0 \<le> sint (bmCnt_of ks)") simp_all
  qed
qed

lemma index_inv_init:
  "index_inv (unat (Cnt a)) [] (a\<lparr>Bitmaps := replicate n 0, Offsets := replicate n 0\<rparr>)"
  by (simp add: index_inv_def)

lemma InitIndexBitmap_success:
  assumes "InitIndexBitmap a ks = Inr (a', None)"
  shows "sorted_wrt (<) (map sint ks)"
    and "\<forall>x\<in>set ks. 0 \<le> sint x"
    and "index_inv (unat (Cnt a)) (map sint ks) a'"
    and "length (Bitmaps a') = nat (sint (bmCnt_of ks))"
    and "length (Bitmaps a') < 33554432"
    and "0 \<le> sint (bmCnt_of ks)"
proof -
  define n where "n = nat (sint (bmCnt_of ks))"
  define a0 where "a0 = a\<lparr>Bitmaps := replicate n 0, Offsets := replicate n 0\<rparr>"
  have nn: "0 \<le> sint (bmCnt_of ks)"
    using assms by (simp add: InitIndexBitmap_alt split: if_splits)
  then have run: "InitIndexBitmap_loop a0 0 ks = Inr (a', None)"
    using assms by (simp add: InitIndexBitmap_alt a0_def n_def)
  have len0: "length (Bitmaps a0) = n" by (simp add: a0_def)
  have nlt: "n < 33554432" using bmCnt_of_lt [of ks] nn by (simp add: n_def)
  have z: "0 \<le> sint (0::int32)" by simp
  have l0: "length (Bitmaps a0) < 33554432" using nlt by (simp add: len0)
  have s: "sorted_wrt (<) (map sint ks)
     \<and> (\<forall>x\<in>set ks. sint (0::int32) \<le> sint x \<and> nat (sint x div 64) < length (Bitmaps a0))"
    using loop_success [OF run z l0] .
  have inv0: "index_inv (unat (Cnt a)) [] a0" unfolding a0_def by (rule index_inv_init)
  have srt: "sorted_wrt (<) ([] @ map sint ks)" using s by simp
  have rng: "\<forall>x\<in>set ks. 0 \<le> sint x \<and> nat (sint x div 64) < length (Bitmaps a0)"
    using s by simp
  have nx: "\<forall>x\<in>set ks. sint (0::int32) \<le> sint x" using s by simp
  obtain a'' where "InitIndexBitmap_loop a0 0 ks = Inr (a'', None)"
    and "index_inv (unat (Cnt a)) ([] @ map sint ks) a''"
    and "length (Bitmaps a'') = length (Bitmaps a0)"
    using loop_builds [OF inv0 srt rng nx] by blast
  then have inv: "index_inv (unat (Cnt a)) (map sint ks) a'"
    and len: "length (Bitmaps a') = n"
    using run by (simp_all add: len0)
  show "sorted_wrt (<) (map sint ks)" using s by simp
  show "\<forall>x\<in>set ks. 0 \<le> sint x" using s by simp
  show "index_inv (unat (Cnt a)) (map sint ks) a'" by (rule inv)
  show "length (Bitmaps a') = nat (sint (bmCnt_of ks))" using len by (simp add: n_def)
  show "length (Bitmaps a') < 33554432" using len nlt by simp
  show "0 \<le> sint (bmCnt_of ks)" by (rule nn)
qed

lemma sorted_last_max:
  assumes "sorted_wrt (<) (xs::int list)" and "x \<in> set xs"
  shows "x \<le> last xs"
proof -
  have "sorted xs" using assms(1) by (rule strict_sorted_imp_sorted)
  moreover obtain i where "i < length xs" "xs ! i = x" using assms(2) by (auto simp add: in_set_conv_nth)
  ultimately have "xs ! i \<le> xs ! (length xs - 1)" by (intro sorted_nth_mono) simp_all
  moreover have "xs \<noteq> []" using assms(2) by auto
  ultimately show ?thesis using \<open>xs ! i = x\<close> by (simp add: last_conv_nth)
qed

lemma InitIndexBitmap_succeeds:
  assumes srt: "sorted_wrt (<) (map sint ks)"
    and nn: "\<forall>x\<in>set ks. 0 \<le> sint x"
    and top: "\<forall>x\<in>set ks. sint x < 2147483584"
  shows "\<exists>a'. InitIndexBitmap a ks = Inr (a', None)"
proof (cases "ks = []")
  case True
  then show ?thesis by (simp add: InitIndexBitmap_alt bmCnt_of_Nil)
next
  case ne: False
  define n where "n = nat (sint (bmCnt_of ks))"
  define a0 where "a0 = a\<lparr>Bitmaps := replicate n 0, Offsets := replicate n 0\<rparr>"
  have l1: "0 \<le> sint (last ks)" and l2: "sint (last ks) < 2147483584"
    using ne nn top by simp_all
  have cnt: "sint (bmCnt_of ks) = sint (last ks) div 64 + 1"
    by (rule bmCnt_of_nonneg [OF ne l1 l2])
  have pos: "0 \<le> sint (last ks) div 64" using l1 by (simp add: pos_imp_zdiv_nonneg_iff)
  have len0: "length (Bitmaps a0) = n" by (simp add: a0_def)
  have inv0: "index_inv (unat (Cnt a)) [] a0" unfolding a0_def by (rule index_inv_init)
  have srt0: "sorted_wrt (<) ([] @ map sint ks)" using srt by simp
  have rng: "\<forall>x\<in>set ks. 0 \<le> sint x \<and> nat (sint x div 64) < length (Bitmaps a0)"
  proof
    fix x assume x: "x \<in> set ks"
    have "sint x \<in> set (map sint ks)" using x by simp
    then have "sint x \<le> last (map sint ks)" by (rule sorted_last_max [OF srt])
    then have "sint x \<le> sint (last ks)" using ne by (simp add: last_map)
    then have "sint x div 64 \<le> sint (last ks) div 64" by (rule zdiv_mono1) simp
    then have "nat (sint x div 64) < n" using pos by (simp add: n_def cnt)
    then show "0 \<le> sint x \<and> nat (sint x div 64) < length (Bitmaps a0)"
      using nn x by (simp add: len0)
  qed
  have nx: "\<forall>x\<in>set ks. sint (0::int32) \<le> sint x" using nn by simp
  obtain a' where "InitIndexBitmap_loop a0 0 ks = Inr (a', None)"
    using loop_builds [OF inv0 srt0 rng nx] by blast
  moreover have "0 \<le> sint (bmCnt_of ks)" using pos by (simp add: cnt)
  ultimately show ?thesis by (simp add: InitIndexBitmap_alt a0_def n_def)
qed

section \<open>The queries on non-negative keys\<close>

lemma GetEltIndex_nonneg:
  assumes nn: "0 \<le> sint k"
    and l: "length (Bitmaps a) < 2147483648"
    and eq: "length (Offsets a) = length (Bitmaps a)"
  shows "GetEltIndex a k =
     (if length (Bitmaps a) \<le> nat (sint k div 64) then Inr (0, False)
      else if \<not> bit (Bitmaps a ! nat (sint k div 64)) (nat (sint k mod 64)) then Inr (0, False)
      else Inr (Offsets a ! nat (sint k div 64)
                + of_nat (card {i. i < nat (sint k mod 64) \<and> bit (Bitmaps a ! nat (sint k div 64)) i}),
                True))"
proof -
  obtain iBm iBit where bm: "bmBit k = (iBm, iBit)" by (cases "bmBit k")
  have i1: "sint iBm = sint k div 64" using sint_bmBit_fst [of k] bm by simp
  have i2: "uint_of_int32 iBit = nat (sint k mod 64)"
    using snd_bmBit [of k] bm by (simp add: uint_of_int32_and63)
  have d: "0 \<le> sint k div 64" using nn by (simp add: pos_imp_zdiv_nonneg_iff)
  have c: "(len32 (Bitmaps a) \<le>s iBm) = (length (Bitmaps a) \<le> nat (sint k div 64))"
    using d by (simp add: word_sle_eq sint_len32 [OF l] i1) linarith
  show ?thesis
    using d eq
    by (simp add: GetEltIndex_def bm c slice_get_def i1 i2 bit_test OnesCount64Before_card)
qed

lemma Has_nonneg:
  assumes nn: "0 \<le> sint k"
    and l: "length (Bitmaps a) < 2147483648"
  shows "Has a k =
     Inr (nat (sint k div 64) < length (Bitmaps a)
          \<and> bit (Bitmaps a ! nat (sint k div 64)) (nat (sint k mod 64)))"
proof -
  have i1: "sint (div32 k bmWidth) = sint k div 64" by (rule sint_div32_64 [OF nn])
  have i2: "unat (k AND bmMask) = nat (sint k mod 64)" by (simp add: bmMask_def unat_and63)
  have d: "0 \<le> sint k div 64" using nn by (simp add: pos_imp_zdiv_nonneg_iff)
  have c: "(div32 k bmWidth <s len32 (Bitmaps a)) = (nat (sint k div 64) < length (Bitmaps a))"
    using d by (simp add: word_sless_alt sint_len32 [OF l] i1) linarith
  show ?thesis
    using d by (simp add: Has_def Let_def c slice_get_def i1 i2 bit_test)
qed

lemma sorted_filter_less_nth:
  assumes "sorted_wrt (<) (ps::int list)" and "i < length ps"
  shows "filter (\<lambda>y. y < ps ! i) ps = take i ps"
proof -
  have dec: "ps = take i ps @ ps ! i # drop (Suc i) ps" using assms(2) by (rule id_take_nth_drop)
  have s: "sorted_wrt (<) (take i ps @ ps ! i # drop (Suc i) ps)" using assms(1) dec by simp
  have lo: "\<forall>y\<in>set (take i ps). y < ps ! i" using s by (simp add: sorted_wrt_append)
  have hi: "\<forall>y\<in>set (drop (Suc i) ps). ps ! i < y" using s by (simp add: sorted_wrt_append)
  have "filter (\<lambda>y. y < ps ! i) (take i ps @ ps ! i # drop (Suc i) ps) = take i ps"
    using lo hi by (auto simp add: filter_id_conv filter_empty_conv)
  then show ?thesis using dec by simp
qed

section \<open>Rank of a present key\<close>

lemma rank_split:
  assumes inv: "index_inv c0 ps a"
    and d: "distinct ps"
    and bl: "b < length (Bitmaps a)"
    and j64: "j \<le> 64"
  shows "length (filter (\<lambda>y. y < 64 * int b) ps) + card {i. i < j \<and> bit (Bitmaps a ! b) i}
     = length (filter (\<lambda>y. y < 64 * int b + int j) ps)"
proof -
  define A where "A = {y \<in> set ps. y < 64 * int b}"
  define B where "B = {y \<in> set ps. 64 * int b \<le> y \<and> y < 64 * int b + int j}"
  define I where "I = {i. i < j \<and> bit (Bitmaps a ! b) i}"
  have bits: "\<And>i. i < 64 \<Longrightarrow> bit (Bitmaps a ! b) i = (64 * int b + int i \<in> set ps)"
    using inv bl by (simp add: index_inv_def)
  have I: "I = {i. i < j \<and> 64 * int b + int i \<in> set ps}"
    using bits j64 by (auto simp add: I_def)
  have "B = (\<lambda>i. 64 * int b + int i) ` I"
  proof (rule set_eqI)
    fix y
    show "(y \<in> B) = (y \<in> (\<lambda>i. 64 * int b + int i) ` I)"
    proof
      assume y: "y \<in> B"
      then have "nat (y - 64 * int b) < j" by (simp add: B_def) linarith
      then have "nat (y - 64 * int b) \<in> I" using y by (simp add: B_def I)
      moreover have "y = 64 * int b + int (nat (y - 64 * int b))" using y by (simp add: B_def)
      ultimately show "y \<in> (\<lambda>i. 64 * int b + int i) ` I" by (rule rev_image_eqI)
    next
      assume "y \<in> (\<lambda>i. 64 * int b + int i) ` I"
      then show "y \<in> B" by (auto simp add: B_def I)
    qed
  qed
  moreover have "inj_on (\<lambda>i. 64 * int b + int i) I" by (simp add: inj_on_def)
  ultimately have cB: "card B = card I" by (simp add: card_image)
  have fin: "finite A" "finite B" by (simp_all add: A_def B_def)
  have dis: "A \<inter> B = {}" by (auto simp add: A_def B_def)
  have un: "A \<union> B = {y \<in> set ps. y < 64 * int b + int j}" by (auto simp add: A_def B_def)
  have "card (A \<union> B) = card A + card B" using fin dis by (rule card_Un_disjoint)
  moreover have "length (filter (\<lambda>y. y < 64 * int b) ps) = card A"
    using d by (simp add: distinct_length_filter A_def Int_def conj_commute)
  moreover have "length (filter (\<lambda>y. y < 64 * int b + int j) ps) = card (A \<union> B)"
    using d by (simp add: distinct_length_filter un Int_def conj_commute)
  ultimately show ?thesis by (simp add: cB I_def)
qed

lemma GetEltIndex_inv:
  assumes inv: "index_inv c0 ps a"
    and d: "distinct ps"
    and l: "length (Bitmaps a) < 2147483648"
    and nn: "0 \<le> sint k"
  shows "GetEltIndex a k =
     (if sint k \<in> set ps
      then Inr (of_nat (c0 + length (filter (\<lambda>y. y < sint k) ps)), True)
      else Inr (0, False))"
proof -
  define b where "b = nat (sint k div 64)"
  define j where "j = nat (sint k mod 64)"
  have eq: "length (Offsets a) = length (Bitmaps a)" using inv by (simp add: index_inv_def)
  have key: "sint k = 64 * int b + int j" and j64: "j < 64"
    using split_key [OF nn] by (simp_all add: b_def j_def)
  have G: "GetEltIndex a k =
     (if length (Bitmaps a) \<le> b then Inr (0, False)
      else if \<not> bit (Bitmaps a ! b) j then Inr (0, False)
      else Inr (Offsets a ! b + of_nat (card {i. i < j \<and> bit (Bitmaps a ! b) i}), True))"
    using GetEltIndex_nonneg [OF nn l eq] by (simp add: b_def j_def)
  show ?thesis
  proof (cases "length (Bitmaps a) \<le> b")
    case True
    have "sint k \<notin> set ps"
    proof
      assume "sint k \<in> set ps"
      then have "sint k < 64 * int (length (Bitmaps a))" using inv by (simp add: index_inv_def)
      then show False using True key by simp
    qed
    then show ?thesis using True by (simp add: G)
  next
    case False
    then have bl: "b < length (Bitmaps a)" by simp
    have bit: "bit (Bitmaps a ! b) j = (sint k \<in> set ps)"
      using inv bl j64 by (simp add: index_inv_def key)
    show ?thesis
    proof (cases "sint k \<in> set ps")
      case True
      then have "Bitmaps a ! b \<noteq> 0" using bit by auto
      then have off: "Offsets a ! b = of_nat (c0 + length (filter (\<lambda>y. y < 64 * int b) ps))"
        using inv bl by (simp add: index_inv_def)
      have "length (filter (\<lambda>y. y < 64 * int b) ps) + card {i. i < j \<and> bit (Bitmaps a ! b) i}
          = length (filter (\<lambda>y. y < sint k) ps)"
        using rank_split [OF inv d bl, of j] j64 by (simp add: key)
      then have "c0 + length (filter (\<lambda>y. y < 64 * int b) ps)
            + card {i. i < j \<and> bit (Bitmaps a ! b) i}
          = c0 + length (filter (\<lambda>y. y < sint k) ps)"
        by linarith
      then have "(of_nat (c0 + length (filter (\<lambda>y. y < 64 * int b) ps)
            + card {i. i < j \<and> bit (Bitmaps a ! b) i}) :: int32)
          = of_nat (c0 + length (filter (\<lambda>y. y < sint k) ps))"
        by (rule arg_cong)
      then have "Offsets a ! b + of_nat (card {i. i < j \<and> bit (Bitmaps a ! b) i})
          = (of_nat (c0 + length (filter (\<lambda>y. y < sint k) ps)) :: int32)"
        by (simp add: off)
      then show ?thesis using True bl bit by (simp add: G)
    next
      case False
      then show ?thesis using bl bit by (simp add: G)
    qed
  qed
qed

section \<open>Presence, and how many keys fit\<close>

lemma Has_inv:
  assumes inv: "index_inv c0 ps a"
    and l: "length (Bitmaps a) < 2147483648"
    and nn: "0 \<le> sint k"
  shows "Has a k = Inr (sint k \<in> set ps)"
proof -
  define b where "b = nat (sint k div 64)"
  define j where "j = nat (sint k mod 64)"
  have key: "sint k = 64 * int b + int j" and j64: "j < 64"
    using split_key [OF nn] by (simp_all add: b_def j_def)
  have H: "Has a k = Inr (b < length (Bitmaps a) \<and> bit (Bitmaps a ! b) j)"
    using Has_nonneg [OF nn l] by (simp add: b_def j_def)
  show ?thesis
  proof (cases "b < length (Bitmaps a)")
    case True
    then have "bit (Bitmaps a ! b) j = (sint k \<in> set ps)"
      using inv j64 by (simp add: index_inv_def key)
    then show ?thesis using True by (simp add: H)
  next
    case False
    have "sint k \<notin> set ps"
    proof
      assume "sint k \<in> set ps"
      then have "sint k < 64 * int (length (Bitmaps a))" using inv by (simp add: index_inv_def)
      then show False using False key by simp
    qed
    then show ?thesis using False by (simp add: H)
  qed
qed

lemma distinct_bounded_length:
  assumes "distinct (ps::int list)" and "\<forall>y\<in>set ps. 0 \<le> y \<and> y < int n"
  shows "length ps \<le> n"
proof -
  have "set ps \<subseteq> int ` {..<n}"
  proof
    fix y assume "y \<in> set ps"
    then have "0 \<le> y" "nat y < n" using assms(2) by auto
    then have "y = int (nat y)" "nat y \<in> {..<n}" by simp_all
    then show "y \<in> int ` {..<n}" by (rule image_eqI)
  qed
  then have "card (set ps) \<le> card (int ` {..<n})" by (intro card_mono) simp_all
  also have "\<dots> \<le> n" using card_image_le [of "{..<n}" int] by simp
  finally show ?thesis using assms(1) by (simp add: distinct_card)
qed

lemma built_length:
  assumes "InitIndexBitmap a0 ks = Inr (a, None)"
  shows "length ks < 2147483648"
proof -
  have d: "distinct (map sint ks)"
    using InitIndexBitmap_success(1) [OF assms] by (simp add: strict_sorted_iff)
  have inv: "index_inv (unat (Cnt a0)) (map sint ks) a" by (rule InitIndexBitmap_success(3) [OF assms])
  have l: "length (Bitmaps a) < 33554432" by (rule InitIndexBitmap_success(5) [OF assms])
  have "\<forall>y\<in>set (map sint ks). 0 \<le> y \<and> y < int (64 * length (Bitmaps a))"
    using inv by (simp add: index_inv_def)
  then have "length (map sint ks) \<le> 64 * length (Bitmaps a)"
    by (rule distinct_bounded_length [OF d])
  then show ?thesis using l by simp
qed

lemma sint_of_nat32: "n < 2147483648 \<Longrightarrow> sint (of_nat n :: int32) = int n"
proof -
  assume "n < 2147483648"
  then have "sint (word_of_int (int n) :: int32) = int n"
    by (intro sint_word_of_int32) simp_all
  then show ?thesis by simp
qed

section \<open>The two block/bit splits\<close>

text \<open>
  The arithmetic behind the two splits: on a non-negative key the truncating division by
  \<open>bmWidth\<close> is the arithmetic shift by 6, and the two masks are the same constant.
\<close>

lemma split_pair_eq:
  "0 \<le> sint k \<Longrightarrow> (div32 k bmWidth, k AND bmMask) = bmBit k"
proof -
  assume nn: "0 \<le> sint k"
  have "sint (div32 k bmWidth) = sint (fst (bmBit k))"
    using nn by (simp only: sint_div32_64 sint_bmBit_fst)
  then have "div32 k bmWidth = fst (bmBit k)" by (rule signed_word_eqI)
  moreover have "k AND bmMask = snd (bmBit k)" by (simp add: bmMask_def snd_bmBit)
  ultimately show ?thesis by (simp add: prod_eq_iff)
qed

text \<open>
  C9. On every non-negative key the block/bit split that \<^verbatim>\<open>Has\<close> computes (truncating
  division by \<open>bmWidth\<close>, mask \<open>bmMask\<close>) is the pair \<^verbatim>\<open>bmBit\<close> computes for \<^verbatim>\<open>GetEltIndex\<close>
  (arithmetic shift by 6, mask 63). So \<^verbatim>\<open>Has\<close> is its own body run on the pair of
  \<^verbatim>\<open>bmBit\<close>, and \<^verbatim>\<open>GetEltIndex\<close> is its own body run on the pair of \<^verbatim>\<open>Has\<close>.
\<close>

theorem Has_split_is_bmBit_split:
  assumes "0 \<le> sint k"
  shows "(div32 k bmWidth, k AND bmMask) = bmBit k
     \<and> Has a k =
         (case bmBit k of (iBm, iBit) \<Rightarrow>
            if iBm <s len32 (Bitmaps a)
            then (case slice_get (Bitmaps a) iBm of
                    Inl p \<Rightarrow> Inl p
                  | Inr w \<Rightarrow> Inr (drop_bit (unat iBit) w AND 1 \<noteq> 0))
            else Inr False)
     \<and> GetEltIndex a k =
         (case (div32 k bmWidth, k AND bmMask) of (iBm, iBit) \<Rightarrow>
            if len32 (Bitmaps a) \<le>s iBm then Inr (0, False)
            else (case slice_get (Bitmaps a) iBm of
                    Inl p \<Rightarrow> Inl p
                  | Inr bmWord \<Rightarrow>
                      if drop_bit (uint_of_int32 iBit) bmWord AND 1 = 0 then Inr (0, False)
                      else (case slice_get (Offsets a) iBm of
                              Inl p \<Rightarrow> Inl p
                            | Inr base \<Rightarrow>
                                (let cnt1 = OnesCount64Before bmWord (uint_of_int32 iBit)
                                 in Inr (base + of_nat cnt1, True)))))"
proof -
  have e: "(div32 k bmWidth, k AND bmMask) = bmBit k" by (rule split_pair_eq [OF assms])
  have H: "Has a k =
         (case (div32 k bmWidth, k AND bmMask) of (iBm, iBit) \<Rightarrow>
            if iBm <s len32 (Bitmaps a)
            then (case slice_get (Bitmaps a) iBm of
                    Inl p \<Rightarrow> Inl p
                  | Inr w \<Rightarrow> Inr (drop_bit (unat iBit) w AND 1 \<noteq> 0))
            else Inr False)"
    by (simp add: Has_def Let_def)
  show ?thesis
  proof (intro conjI)
    show "(div32 k bmWidth, k AND bmMask) = bmBit k" by (rule e)
    show "Has a k =
         (case bmBit k of (iBm, iBit) \<Rightarrow>
            if iBm <s len32 (Bitmaps a)
            then (case slice_get (Bitmaps a) iBm of
                    Inl p \<Rightarrow> Inl p
                  | Inr w \<Rightarrow> Inr (drop_bit (unat iBit) w AND 1 \<noteq> 0))
            else Inr False)"
      by (simp only: H e)
    show "GetEltIndex a k =
         (case (div32 k bmWidth, k AND bmMask) of (iBm, iBit) \<Rightarrow>
            if len32 (Bitmaps a) \<le>s iBm then Inr (0, False)
            else (case slice_get (Bitmaps a) iBm of
                    Inl p \<Rightarrow> Inl p
                  | Inr bmWord \<Rightarrow>
                      if drop_bit (uint_of_int32 iBit) bmWord AND 1 = 0 then Inr (0, False)
                      else (case slice_get (Offsets a) iBm of
                              Inl p \<Rightarrow> Inl p
                            | Inr base \<Rightarrow>
                                (let cnt1 = OnesCount64Before bmWord (uint_of_int32 iBit)
                                 in Inr (base + of_nat cnt1, True)))))"
      by (simp only: GetEltIndex_def e)
  qed
qed

theorem Has_split_is_bmBit_split_witness:
  "0 \<le> sint (130 :: int32)
     \<and> (div32 130 bmWidth, 130 AND bmMask) = bmBit 130
     \<and> bmBit 130 = (2, 2)
     \<and> Has \<lparr>Cnt = 4, Bitmaps = [6, 1, 4], Offsets = [0, 2, 3]\<rparr> 130 = Inr True
     \<and> GetEltIndex \<lparr>Cnt = 4, Bitmaps = [6, 1, 4], Offsets = [0, 2, 3]\<rparr> 130 = Inr (3, True)"
proof -
  let ?a = "\<lparr>Cnt = 4, Bitmaps = [6, 1, 4], Offsets = [0, 2, 3]\<rparr>"
  have h: "0 \<le> sint (130 :: int32)" by simp
  have b: "bmBit 130 = (2, 2)" by code_simp
  have hb: "(if (2 :: int32) <s len32 (Bitmaps ?a)
       then (case slice_get (Bitmaps ?a) 2 of
               Inl p \<Rightarrow> Inl p
             | Inr w \<Rightarrow> Inr (drop_bit (unat (2 :: int32)) w AND 1 \<noteq> 0))
       else Inr False) = Inr True"
    by code_simp
  have g: "GetEltIndex ?a 130 = Inr (3, True)" by code_simp
  have t: "(div32 130 bmWidth, 130 AND bmMask) = bmBit 130
     \<and> Has ?a 130 =
         (case bmBit 130 of (iBm, iBit) \<Rightarrow>
            if iBm <s len32 (Bitmaps ?a)
            then (case slice_get (Bitmaps ?a) iBm of
                    Inl p \<Rightarrow> Inl p
                  | Inr w \<Rightarrow> Inr (drop_bit (unat iBit) w AND 1 \<noteq> 0))
            else Inr False)"
    using Has_split_is_bmBit_split [OF h, of ?a] by blast
  then have "Has ?a 130 = Inr True" by (simp only: b prod.case hb)
  then show ?thesis using h b g t by blast
qed

section \<open>The concrete scenario\<close>

text \<open>
  C8. Building from \<open>[1, 2, 64, 130]\<close> on the empty structure returns without error with
  count 4; then \<^verbatim>\<open>GetEltIndex\<close> gives \<open>(0, true)\<close> at 1, \<open>(1, true)\<close> at 2, not found at 3,
  \<open>(2, true)\<close> at 64 and \<open>(3, true)\<close> at 130, and \<^verbatim>\<open>Has\<close> is false at 63.
\<close>

theorem scenario_1_2_64_130:
  "(\<exists>a. InitIndexBitmap emptyArray32 [1, 2, 64, 130] = Inr (a, None)
      \<and> Cnt a = 4
      \<and> GetEltIndex a 1 = Inr (0, True)
      \<and> GetEltIndex a 2 = Inr (1, True)
      \<and> (\<exists>p. GetEltIndex a 3 = Inr (p, False))
      \<and> GetEltIndex a 64 = Inr (2, True)
      \<and> GetEltIndex a 130 = Inr (3, True)
      \<and> Has a 63 = Inr False)"
proof -
  let ?a = "\<lparr>Cnt = 4, Bitmaps = [6, 1, 4], Offsets = [0, 2, 3]\<rparr>"
  have "InitIndexBitmap emptyArray32 [1, 2, 64, 130] = Inr (?a, None)" by code_simp
  moreover have "Cnt ?a = 4" by simp
  moreover have "GetEltIndex ?a 1 = Inr (0, True)" by code_simp
  moreover have "GetEltIndex ?a 2 = Inr (1, True)" by code_simp
  moreover have "GetEltIndex ?a 3 = Inr (0, False)" by code_simp
  moreover have "GetEltIndex ?a 64 = Inr (2, True)" by code_simp
  moreover have "GetEltIndex ?a 130 = Inr (3, True)" by code_simp
  moreover have "Has ?a 63 = Inr False" by code_simp
  ultimately show ?thesis by blast
qed

section \<open>Round trip\<close>

text \<open>
  C1. After \<^verbatim>\<open>InitIndexBitmap\<close> has returned without error on the empty structure (which
  forces the list to be strictly ascending and non-negative, see \<open>InitIndexBitmap_success\<close>),
  \<^verbatim>\<open>GetEltIndex\<close> of the key at 0-based position \<open>i\<close> of the build list returns \<open>(i, true)\<close>,
  with \<open>i\<close> representable as a non-negative \<^verbatim>\<open>int32\<close>, and every non-negative key that is
  not in the list is reported not found.
\<close>

theorem roundtrip:
  assumes "InitIndexBitmap emptyArray32 ks = Inr (a, None)"
  shows "(i < length ks \<longrightarrow>
            GetEltIndex a (ks ! i) = Inr (of_nat i, True) \<and> sint (of_nat i :: int32) = int i)
       \<and> (0 \<le> sint k \<and> k \<notin> set ks \<longrightarrow> GetEltIndex a k = Inr (0, False))"
proof -
  have srt: "sorted_wrt (<) (map sint ks)" by (rule InitIndexBitmap_success(1) [OF assms])
  have nn: "\<forall>x\<in>set ks. 0 \<le> sint x" by (rule InitIndexBitmap_success(2) [OF assms])
  have "index_inv (unat (Cnt emptyArray32)) (map sint ks) a"
    by (rule InitIndexBitmap_success(3) [OF assms])
  then have inv: "index_inv 0 (map sint ks) a" by (simp add: emptyArray32_def)
  have d: "distinct (map sint ks)" using srt by (simp add: strict_sorted_iff)
  have l: "length (Bitmaps a) < 2147483648"
    using InitIndexBitmap_success(5) [OF assms] by simp
  have G: "\<And>k. 0 \<le> sint k \<Longrightarrow> GetEltIndex a k =
     (if sint k \<in> set (map sint ks)
      then Inr (of_nat (0 + length (filter (\<lambda>y. y < sint k) (map sint ks))), True)
      else Inr (0, False))"
    by (rule GetEltIndex_inv [OF inv d l])
  have present: "GetEltIndex a (ks ! i) = Inr (of_nat i, True) \<and> sint (of_nat i :: int32) = int i"
    if i: "i < length ks"
  proof -
    have i': "i < length (map sint ks)" using i by simp
    have e: "map sint ks ! i = sint (ks ! i)" using i by simp
    have "filter (\<lambda>y. y < map sint ks ! i) (map sint ks) = take i (map sint ks)"
      by (rule sorted_filter_less_nth [OF srt i'])
    then have "length (filter (\<lambda>y. y < sint (ks ! i)) (map sint ks)) = i"
      using i by (simp only: e) simp
    moreover have "sint (ks ! i) \<in> set (map sint ks)" using i by simp
    moreover have "0 \<le> sint (ks ! i)" using nn i by simp
    ultimately have "GetEltIndex a (ks ! i) = Inr (of_nat i, True)" by (simp add: G)
    moreover have "i < 2147483648" using built_length [OF assms] i by simp
    ultimately show ?thesis by (simp add: sint_of_nat32)
  qed
  have absent: "GetEltIndex a k = Inr (0, False)" if k: "0 \<le> sint k" "k \<notin> set ks"
  proof -
    have "sint k \<notin> set (map sint ks)"
    proof
      assume "sint k \<in> set (map sint ks)"
      then obtain x where x: "x \<in> set ks" and "sint k = sint x" by auto
      then have "k = x" by (intro signed_word_eqI)
      then have "k \<in> set ks" using x by simp
      then show False using k(2) by simp
    qed
    then show ?thesis using k(1) by (simp add: G)
  qed
  show ?thesis using present absent by blast
qed

theorem roundtrip_witness:
  "InitIndexBitmap emptyArray32 [0, 3, 70] =
       Inr (\<lparr>Cnt = 3, Bitmaps = [9, 64], Offsets = [0, 2]\<rparr>, None)
     \<and> GetEltIndex \<lparr>Cnt = 3, Bitmaps = [9, 64], Offsets = [0, 2]\<rparr> 70 = Inr (2, True)
     \<and> GetEltIndex \<lparr>Cnt = 3, Bitmaps = [9, 64], Offsets = [0, 2]\<rparr> 5 = Inr (0, False)"
proof -
  have h: "InitIndexBitmap emptyArray32 [0, 3, 70] =
      Inr (\<lparr>Cnt = 3, Bitmaps = [9, 64], Offsets = [0, 2]\<rparr>, None)"
    by code_simp
  show ?thesis using h roundtrip [OF h, of 2 5] by simp
qed

lemma less_block_iff:
  "((x::int) < 64 * q) = (x div 64 < q)"
proof -
  obtain p m where "x = 64 * p + m" "0 \<le> m" "m < 64" "x div 64 = p" by (rule div64_decomp)
  then show ?thesis by (simp only:) linarith
qed

section \<open>Offset plus in-block rank\<close>

text \<open>
  C5. After a build on the empty structure has returned without error, take a key \<open>k\<close>
  whose bit is set in \<open>Bitmaps\<close> (its word \<open>k div 64\<close> exists and bit \<open>k mod 64\<close> of it is set).
  Then \<^verbatim>\<open>GetEltIndex\<close> finds \<open>k\<close>, and the position it returns is \<open>Offsets[k div 64]\<close> plus the
  number of set bits of \<open>Bitmaps[k div 64]\<close> strictly below \<open>k mod 64\<close>, without wrap-around.
  The offset of that block is the running count at the moment its word first became
  non-zero: the number of keys of the build list that lie in earlier blocks.
\<close>

theorem position_is_offset_plus_rank:
  assumes "InitIndexBitmap emptyArray32 ks = Inr (a, None)"
    and "0 \<le> sint k"
    and "nat (sint k div 64) < length (Bitmaps a)"
    and "bit (Bitmaps a ! nat (sint k div 64)) (nat (sint k mod 64))"
  shows "\<exists>p. GetEltIndex a k = Inr (p, True)
     \<and> sint p = sint (Offsets a ! nat (sint k div 64))
          + int (card {i. i < nat (sint k mod 64) \<and> bit (Bitmaps a ! nat (sint k div 64)) i})
     \<and> sint (Offsets a ! nat (sint k div 64))
          = int (length (filter (\<lambda>x. sint x div 64 < sint k div 64) ks))"
proof -
  define b where "b = nat (sint k div 64)"
  define j where "j = nat (sint k mod 64)"
  define r where "r = card {i. i < j \<and> bit (Bitmaps a ! b) i}"
  define ofs where "ofs = length (filter (\<lambda>y. y < 64 * int b) (map sint ks))"
  have srt: "sorted_wrt (<) (map sint ks)" by (rule InitIndexBitmap_success(1) [OF assms(1)])
  have "index_inv (unat (Cnt emptyArray32)) (map sint ks) a"
    by (rule InitIndexBitmap_success(3) [OF assms(1)])
  then have inv: "index_inv 0 (map sint ks) a" by (simp add: emptyArray32_def)
  have d: "distinct (map sint ks)" using srt by (simp add: strict_sorted_iff)
  have l: "length (Bitmaps a) < 2147483648"
    using InitIndexBitmap_success(5) [OF assms(1)] by simp
  have eq: "length (Offsets a) = length (Bitmaps a)" using inv by (simp add: index_inv_def)
  have bl: "b < length (Bitmaps a)" using assms(3) by (simp add: b_def)
  have bt: "bit (Bitmaps a ! b) j" using assms(4) by (simp add: b_def j_def)
  have key: "sint k = 64 * int b + int j" and j64: "j < 64"
    using split_key [OF assms(2)] by (simp_all add: b_def j_def)
  have G: "GetEltIndex a k = Inr (Offsets a ! b + of_nat r, True)"
    using GetEltIndex_nonneg [OF assms(2) l eq] bl bt by (simp add: b_def j_def r_def)
  have "Bitmaps a ! b \<noteq> 0" using bt by auto
  then have off: "Offsets a ! b = of_nat ofs"
    using inv bl by (simp add: index_inv_def ofs_def)
  have sum: "ofs + r = length (filter (\<lambda>y. y < sint k) (map sint ks))"
    using rank_split [OF inv d bl, of j] j64 by (simp add: key ofs_def r_def)
  have le: "length (filter (\<lambda>y. y < sint k) (map sint ks)) \<le> length (map sint ks)"
    by (rule length_filter_le)
  have "length (map sint ks) < 2147483648" using built_length [OF assms(1)] by simp
  then have bound: "ofs + r < 2147483648" using le sum by linarith
  have so: "sint (Offsets a ! b) = int ofs" using bound by (simp add: off sint_of_nat32)
  have "Offsets a ! b + of_nat r = (of_nat (ofs + r) :: int32)" by (simp add: off)
  then have sp: "sint (Offsets a ! b + of_nat r) = int (ofs + r)"
    using bound by (simp only: sint_of_nat32)
  have "ofs = length (filter ((\<lambda>y. y < 64 * int b) \<circ> sint) ks)"
    by (simp only: ofs_def filter_map length_map)
  also have "(\<lambda>y. y < 64 * int b) \<circ> sint = (\<lambda>x. sint x div 64 < sint k div 64)"
  proof
    fix x
    have "0 \<le> sint k div 64" using assms(2) by (simp add: pos_imp_zdiv_nonneg_iff)
    then have "int b = sint k div 64" by (simp add: b_def)
    then show "((\<lambda>y. y < 64 * int b) \<circ> sint) x = (sint x div 64 < sint k div 64)"
      by (simp add: less_block_iff)
  qed
  finally have oo: "ofs = length (filter (\<lambda>x. sint x div 64 < sint k div 64) ks)" .
  have "GetEltIndex a k = Inr (Offsets a ! b + of_nat r, True)
     \<and> sint (Offsets a ! b + of_nat r) = sint (Offsets a ! b) + int r
     \<and> sint (Offsets a ! b) = int (length (filter (\<lambda>x. sint x div 64 < sint k div 64) ks))"
    using G sp so oo by simp
  then show ?thesis unfolding b_def j_def r_def by blast
qed

theorem position_is_offset_plus_rank_witness:
  "InitIndexBitmap emptyArray32 [0, 3, 70] =
       Inr (\<lparr>Cnt = 3, Bitmaps = [9, 64], Offsets = [0, 2]\<rparr>, None)
     \<and> (\<exists>p. GetEltIndex \<lparr>Cnt = 3, Bitmaps = [9, 64], Offsets = [0, 2]\<rparr> 70 = Inr (p, True)
          \<and> sint p = 2 + int (card {i. i < 6 \<and> bit (64 :: uint64) i})
          \<and> (2::int) = int (length (filter (\<lambda>x. sint x div 64 < 1) [0, 3, 70 :: int32])))"
proof -
  let ?a = "\<lparr>Cnt = 3, Bitmaps = [9, 64], Offsets = [0, 2]\<rparr>"
  have h: "InitIndexBitmap emptyArray32 [0, 3, 70] = Inr (?a, None)"
    by code_simp
  have k: "0 \<le> sint (70 :: int32)" by simp
  have dv: "nat (sint (70 :: int32) div 64) = 1" and md: "nat (sint (70 :: int32) mod 64) = 6"
    by simp_all
  have b: "nat (sint (70 :: int32) div 64) < length (Bitmaps ?a)" by simp
  have t: "bit (Bitmaps ?a ! nat (sint (70 :: int32) div 64)) (nat (sint (70 :: int32) mod 64))"
    by code_simp
  show ?thesis using h position_is_offset_plus_rank [OF h k b t] by simp
qed

section \<open>Totality of the queries\<close>

text \<open>
  On a structure that \<^verbatim>\<open>InitIndexBitmap\<close> built without error, \<^verbatim>\<open>GetEltIndex\<close> and \<^verbatim>\<open>Has\<close>
  return normally for every non-negative key, and a key above the last key of the build
  list (or any non-negative key when the list is empty) yields \<open>(0, false)\<close> and \<open>false\<close>.
\<close>

lemma queries_total_on_nonneg:
  assumes "InitIndexBitmap a0 ks = Inr (a, None)" and "0 \<le> sint k"
  shows "(\<exists>p f. GetEltIndex a k = Inr (p, f)) \<and> (\<exists>f. Has a k = Inr f)
       \<and> (ks = [] \<or> sint (last ks) < sint k \<longrightarrow>
            GetEltIndex a k = Inr (0, False) \<and> Has a k = Inr False)"
proof -
  have srt: "sorted_wrt (<) (map sint ks)" by (rule InitIndexBitmap_success(1) [OF assms(1)])
  have inv: "index_inv (unat (Cnt a0)) (map sint ks) a"
    by (rule InitIndexBitmap_success(3) [OF assms(1)])
  have d: "distinct (map sint ks)" using srt by (simp add: strict_sorted_iff)
  have l: "length (Bitmaps a) < 2147483648"
    using InitIndexBitmap_success(5) [OF assms(1)] by simp
  have G: "GetEltIndex a k =
     (if sint k \<in> set (map sint ks)
      then Inr (of_nat (unat (Cnt a0) + length (filter (\<lambda>y. y < sint k) (map sint ks))), True)
      else Inr (0, False))"
    by (rule GetEltIndex_inv [OF inv d l assms(2)])
  have H: "Has a k = Inr (sint k \<in> set (map sint ks))"
    by (rule Has_inv [OF inv l assms(2)])
  have beyond: "sint k \<notin> set (map sint ks)" if "ks = [] \<or> sint (last ks) < sint k"
  proof
    assume m: "sint k \<in> set (map sint ks)"
    then have ne: "ks \<noteq> []" by auto
    have "sint k \<le> last (map sint ks)" using m by (rule sorted_last_max [OF srt])
    then have "sint k \<le> sint (last ks)" using ne by (simp add: last_map)
    then show False using that ne by simp
  qed
  have "\<exists>p f. GetEltIndex a k = Inr (p, f)"
    by (cases "sint k \<in> set (map sint ks)") (auto simp add: G)
  moreover have "\<exists>f. Has a k = Inr f" by (simp add: H)
  moreover have "ks = [] \<or> sint (last ks) < sint k \<longrightarrow>
      GetEltIndex a k = Inr (0, False) \<and> Has a k = Inr False"
    using beyond by (simp add: G H)
  ultimately show ?thesis by blast
qed

text \<open>
  C2. \<^verbatim>\<open>GetEltIndex\<close> is documented to return \<open>0, false\<close> for an index that is not present
  and \<^verbatim>\<open>Has\<close> to return false, and both guard the word index against the end of
  \<open>Bitmaps\<close> to give that answer. The guard is one-sided (\<^verbatim>\<open>iBm >= len\<close>, \<^verbatim>\<open>iBm < len\<close>):
  on the structure built from \<open>[0]\<close>, \<^verbatim>\<open>GetEltIndex(-1)\<close> passes it with \<open>iBm = -1\<close> and
  indexes \<^verbatim>\<open>a.Bitmaps[-1]\<close>, and \<^verbatim>\<open>Has(-64)\<close> does the same, so both calls panic where a
  total query answers not found.
\<close>

theorem negative_key_panics:
  "InitIndexBitmap emptyArray32 [0] = Inr (\<lparr>Cnt = 1, Bitmaps = [1], Offsets = [0]\<rparr>, None)
     \<and> GetEltIndex \<lparr>Cnt = 1, Bitmaps = [1], Offsets = [0]\<rparr> (- 1) = Inl IndexOutOfRange
     \<and> Has \<lparr>Cnt = 1, Bitmaps = [1], Offsets = [0]\<rparr> (- 64) = Inl IndexOutOfRange"
proof -
  have "InitIndexBitmap emptyArray32 [0] = Inr (\<lparr>Cnt = 1, Bitmaps = [1], Offsets = [0]\<rparr>, None)"
    by code_simp
  moreover have "GetEltIndex \<lparr>Cnt = 1, Bitmaps = [1], Offsets = [0]\<rparr> (- 1) = Inl IndexOutOfRange"
    by code_simp
  moreover have "Has \<lparr>Cnt = 1, Bitmaps = [1], Offsets = [0]\<rparr> (- 64) = Inl IndexOutOfRange"
    by code_simp
  ultimately show ?thesis by simp
qed

section \<open>Consistency of the two queries\<close>

text \<open>
  On a structure that \<^verbatim>\<open>InitIndexBitmap\<close> built without error and for every non-negative
  key, \<^verbatim>\<open>Has\<close> returns the boolean component of \<^verbatim>\<open>GetEltIndex\<close>.
\<close>

lemma has_agrees_with_GetEltIndex:
  assumes "InitIndexBitmap a0 ks = Inr (a, None)" and "0 \<le> sint k"
  shows "\<exists>p f. GetEltIndex a k = Inr (p, f) \<and> Has a k = Inr f"
proof -
  have srt: "sorted_wrt (<) (map sint ks)" by (rule InitIndexBitmap_success(1) [OF assms(1)])
  have inv: "index_inv (unat (Cnt a0)) (map sint ks) a"
    by (rule InitIndexBitmap_success(3) [OF assms(1)])
  have d: "distinct (map sint ks)" using srt by (simp add: strict_sorted_iff)
  have l: "length (Bitmaps a) < 2147483648"
    using InitIndexBitmap_success(5) [OF assms(1)] by simp
  have G: "GetEltIndex a k =
     (if sint k \<in> set (map sint ks)
      then Inr (of_nat (unat (Cnt a0) + length (filter (\<lambda>y. y < sint k) (map sint ks))), True)
      else Inr (0, False))"
    by (rule GetEltIndex_inv [OF inv d l assms(2)])
  have H: "Has a k = Inr (sint k \<in> set (map sint ks))"
    by (rule Has_inv [OF inv l assms(2)])
  show ?thesis by (cases "sint k \<in> set (map sint ks)") (auto simp add: G H)
qed

text \<open>
  C3. \<^verbatim>\<open>Has\<close> and \<^verbatim>\<open>GetEltIndex\<close> are to agree on presence for every key, and \<^verbatim>\<open>bmBit\<close>
  is commented as computing \<^verbatim>\<open>idx / bmWidth\<close> and \<^verbatim>\<open>idx % bmWidth\<close>. On a negative key the
  shift and the division differ: on the structure built from \<open>[63]\<close>, \<^verbatim>\<open>Has(-1)\<close> divides
  towards zero, reads bit 63 of word 0 and answers \<open>true\<close> for a key that was never
  inserted, while \<^verbatim>\<open>GetEltIndex(-1)\<close> shifts to word \<open>-1\<close> and panics, leaving no boolean
  component to agree with.
\<close>

theorem has_disagrees_on_negative_key:
  "InitIndexBitmap emptyArray32 [63] =
       Inr (\<lparr>Cnt = 1, Bitmaps = [9223372036854775808], Offsets = [0]\<rparr>, None)
     \<and> Has \<lparr>Cnt = 1, Bitmaps = [9223372036854775808], Offsets = [0]\<rparr> (- 1) = Inr True
     \<and> GetEltIndex \<lparr>Cnt = 1, Bitmaps = [9223372036854775808], Offsets = [0]\<rparr> (- 1)
          = Inl IndexOutOfRange"
proof -
  have "InitIndexBitmap emptyArray32 [63] =
      Inr (\<lparr>Cnt = 1, Bitmaps = [9223372036854775808], Offsets = [0]\<rparr>, None)"
    by code_simp
  moreover have "Has \<lparr>Cnt = 1, Bitmaps = [9223372036854775808], Offsets = [0]\<rparr> (- 1) = Inr True"
    by code_simp
  moreover have "GetEltIndex \<lparr>Cnt = 1, Bitmaps = [9223372036854775808], Offsets = [0]\<rparr> (- 1)
      = Inl IndexOutOfRange"
    by code_simp
  ultimately show ?thesis by simp
qed


section \<open>Lengths of the two slices\<close>




section \<open>The count after construction\<close>

text \<open>
  C7. When \<^verbatim>\<open>InitIndexBitmap\<close>, called on the freshly created structure, completes without
  error, \<open>Cnt\<close> is the number of keys accepted, the length of the input list, as a
  non-negative \<^verbatim>\<open>int32\<close> without wrap-around: the length the external dense array needs.
\<close>

theorem count_after_fresh_build:
  assumes "InitIndexBitmap emptyArray32 ks = Inr (a', None)"
  shows "sint (Cnt a') = int (length ks)"
proof -
  define n where "n = nat (sint (bmCnt_of ks))"
  define a0 where "a0 = emptyArray32\<lparr>Bitmaps := replicate n 0, Offsets := replicate n 0\<rparr>"
  have nn: "0 \<le> sint (bmCnt_of ks)"
    using assms by (simp add: InitIndexBitmap_alt split: if_splits)
  then have run: "InitIndexBitmap_loop a0 0 ks = Inr (a', None)"
    using assms by (simp add: InitIndexBitmap_alt a0_def n_def)
  have "Cnt a' = Cnt a0 + of_nat (length ks)" by (rule loop_Cnt [OF run])
  then have c: "Cnt a' = of_nat (length ks)" by (simp add: a0_def emptyArray32_def)
  have "sint (of_nat (length ks) :: int32) = int (length ks)"
    using built_length [OF assms] by (rule sint_of_nat32)
  then show ?thesis by (simp only: c)
qed

theorem count_after_fresh_build_witness:
  "InitIndexBitmap emptyArray32 [0, 3, 70] =
       Inr (\<lparr>Cnt = 3, Bitmaps = [9, 64], Offsets = [0, 2]\<rparr>, None)
     \<and> sint (Cnt \<lparr>Cnt = 3, Bitmaps = [9, 64], Offsets = [0, 2]\<rparr>) = int (length [0, 3, 70 :: int32])"
proof -
  have h: "InitIndexBitmap emptyArray32 [0, 3, 70] =
      Inr (\<lparr>Cnt = 3, Bitmaps = [9, 64], Offsets = [0, 2]\<rparr>, None)"
    by code_simp
  show ?thesis using h count_after_fresh_build [OF h] by blast
qed

section \<open>Rejection of lists that are not ascending\<close>

text \<open>
  C4. \<^verbatim>\<open>InitIndexBitmap\<close> is documented to return \<^verbatim>\<open>ErrIndexNotAscending\<close> for every list
  that is not ascending. The words are sized from the last element only, and each key is
  written before the next one is compared: on \<open>[64, 3]\<close>, a list of non-negative keys that
  is not strictly ascending, one word is allocated and \<^verbatim>\<open>appendIndex(64)\<close> indexes word 1,
  so the call panics and the error is never returned. The lists \<open>[5, 3]\<close> and \<open>[5, 5]\<close>
  stay inside the one word and are rejected.
\<close>

theorem not_ascending_panics_instead_of_error:
  "\<not> sorted_wrt (<) (map sint [64, 3 :: int32])
     \<and> InitIndexBitmap emptyArray32 [64, 3] = Inl IndexOutOfRange
     \<and> InitIndexBitmap emptyArray32 [5, 3]
          = Inr (\<lparr>Cnt = 1, Bitmaps = [32], Offsets = [0]\<rparr>, Some ErrIndexNotAscending)
     \<and> InitIndexBitmap emptyArray32 [5, 5]
          = Inr (\<lparr>Cnt = 1, Bitmaps = [32], Offsets = [0]\<rparr>, Some ErrIndexNotAscending)"
proof -
  have "\<not> sorted_wrt (<) (map sint [64, 3 :: int32])" by simp
  moreover have "InitIndexBitmap emptyArray32 [64, 3] = Inl IndexOutOfRange" by code_simp
  moreover have "InitIndexBitmap emptyArray32 [5, 3]
      = Inr (\<lparr>Cnt = 1, Bitmaps = [32], Offsets = [0]\<rparr>, Some ErrIndexNotAscending)"
    by code_simp
  moreover have "InitIndexBitmap emptyArray32 [5, 5]
      = Inr (\<lparr>Cnt = 1, Bitmaps = [32], Offsets = [0]\<rparr>, Some ErrIndexNotAscending)"
    by code_simp
  ultimately show ?thesis by simp
qed

section \<open>Writes of construction stay in bounds\<close>

text \<open>
  C10. The loop of \<^verbatim>\<open>InitIndexBitmap\<close> compares each key with \<open>nxt\<close>, one past the
  previously accepted key, and with nothing else; the capacity computed from the last
  element only sizes the slices. When every element of the input is at most its last
  element, the accesses \<^verbatim>\<open>a.Bitmaps[iBm]\<close> and \<^verbatim>\<open>a.Offsets[iBm]\<close> of \<^verbatim>\<open>appendIndex\<close> are in
  bounds: the call never ends in the index-out-of-range panic. Without that hypothesis the
  panic is reached, as on \<open>[200, 3]\<close>.
\<close>

theorem appendIndex_writes_in_bounds:
  "((\<forall>x\<in>set ks. sint x \<le> sint (last ks)) \<longrightarrow> InitIndexBitmap a ks \<noteq> Inl IndexOutOfRange)
     \<and> InitIndexBitmap emptyArray32 [200, 3] = Inl IndexOutOfRange"
proof -
  have main: "InitIndexBitmap a ks \<noteq> Inl IndexOutOfRange"
    if le: "\<forall>x\<in>set ks. sint x \<le> sint (last ks)"
  proof (cases "sint (bmCnt_of ks) < 0")
    case True
    then show ?thesis by (simp add: InitIndexBitmap_alt)
  next
    case False
    then have nn: "0 \<le> sint (bmCnt_of ks)" by simp
    define n where "n = nat (sint (bmCnt_of ks))"
    define a0 where "a0 = a\<lparr>Bitmaps := replicate n 0, Offsets := replicate n 0\<rparr>"
    have n: "int n = sint (bmCnt_of ks)" using nn by (simp add: n_def)
    have eq: "length (Offsets a0) = length (Bitmaps a0)" by (simp add: a0_def)
    have len: "length (Bitmaps a0) = n" by (simp add: a0_def)
    have lt: "length (Bitmaps a0) < 33554432" using bmCnt_of_lt [of ks] n by (simp add: len)
    have z: "0 \<le> sint (0::int32)" by simp
    have cover: "\<forall>x\<in>set ks. sint x < 64 * int (length (Bitmaps a0))"
    proof
      fix x assume x: "x \<in> set ks"
      then have ne: "ks \<noteq> []" by auto
      have xl: "sint x \<le> sint (last ks)" using le x by simp
      have "\<not> 2147483584 \<le> sint (last ks)" using bmCnt_of_overflow [OF ne] nn by auto
      then have l1: "sint (last ks) < 2147483584" by simp
      show "sint x < 64 * int (length (Bitmaps a0))"
      proof (cases "0 \<le> sint (last ks)")
        case True
        obtain q m where d: "sint (last ks) = 64 * q + m" "0 \<le> m" "m < 64"
          "sint (last ks) div 64 = q" by (rule div64_decomp)
        have "int n = q + 1" using bmCnt_of_nonneg [OF ne True l1] n d(4) by simp
        then show ?thesis using xl d(1,3) by (simp add: len)
      next
        case False
        then have "sint (last ks) < 0" by simp
        then have "int n = 0" using bmCnt_of_negative [OF ne _ nn] n by simp
        then show ?thesis using xl \<open>sint (last ks) < 0\<close> by (simp add: len)
      qed
    qed
    obtain r where "InitIndexBitmap_loop a0 0 ks = Inr r"
      using loop_in_bounds [OF eq lt z cover] by blast
    then show ?thesis using nn by (simp add: InitIndexBitmap_alt a0_def n_def)
  qed
  have "InitIndexBitmap emptyArray32 [200, 3] = Inl IndexOutOfRange" by code_simp
  then show ?thesis using main by blast
qed

theorem appendIndex_writes_in_bounds_witness:
  "sint (3 :: int32) \<le> sint (last [3, 200 :: int32])
     \<and> sint (200 :: int32) \<le> sint (last [3, 200 :: int32])
     \<and> InitIndexBitmap emptyArray32 [3, 200] \<noteq> Inl IndexOutOfRange
     \<and> InitIndexBitmap emptyArray32 [3, 200]
          = Inr (\<lparr>Cnt = 2, Bitmaps = [8, 0, 0, 256], Offsets = [0, 0, 0, 1]\<rparr>, None)"
proof -
  have h: "\<forall>x\<in>set [3, 200 :: int32]. sint x \<le> sint (last [3, 200 :: int32])" by simp
  have e: "InitIndexBitmap emptyArray32 [3, 200]
      = Inr (\<lparr>Cnt = 2, Bitmaps = [8, 0, 0, 256], Offsets = [0, 0, 0, 1]\<rparr>, None)"
    by code_simp
  have "InitIndexBitmap emptyArray32 [3, 200] \<noteq> Inl IndexOutOfRange"
    using appendIndex_writes_in_bounds [of "[3, 200]" emptyArray32] h by blast
  then show ?thesis using e by simp
qed

end
